theory Spec2Isabelle
  imports Main "HOL-Library.Word"
begin

section \<open>The export driver of mes (main.go)\<close>

text \<open>
  The program exports the documents matching a query from a search cluster: one initial
  search, then scroll requests, the hits of every page being appended to a buffer that
  is written to the output as one JSON document per line.

  The embedding follows \<^verbatim>\<open>main.go\<close> function by function. Go's \<^verbatim>\<open>int\<close> and
  \<^verbatim>\<open>uint64\<close> are 64-bit words (a 64-bit platform); \<^verbatim>\<open>uint64(x)\<close> and \<^verbatim>\<open>int(x)\<close>
  between them keep the bits. A nil pointer is \<open>None\<close>. \<^verbatim>\<open>log.Fatalf\<close> and a runtime
  panic both end the process: they are the \<open>Inl\<close> results.
\<close>

subsection \<open>Data\<close>

type_synonym uint64 = "64 word"
type_synonym int64 = "64 word"

text \<open>\<^verbatim>\<open>type hit struct { Source interface{} }\<close>; the document is left abstract.\<close>

datatype 'a hit = Hit (Source: 'a)

text \<open>\<^verbatim>\<open>type hits struct { Total uint64; Hits []hit }\<close>\<close>

record 'a hits =
  Total :: uint64
  Hits' :: "'a hit list"

text \<open>
  \<^verbatim>\<open>type result struct { ScrollID string; Took float64; Hits hits }\<close>. \<^verbatim>\<open>Took\<close> is
  never read and is left out.
\<close>

record 'a result =
  ScrollID :: string
  Hits :: "'a hits"

text \<open>
  What the body of an error response decodes to, as far as \<^verbatim>\<open>parseResult\<close> looks at
  it: not JSON at all, JSON whose \<^verbatim>\<open>"error"\<close> entry is not an object, or an error object
  with its type and reason.
\<close>

datatype error_body = BadJSON | NoErrorObject | ErrorObject string string

text \<open>
  An \<^verbatim>\<open>*esapi.Response\<close>, as \<^verbatim>\<open>parseResult\<close> reads it: \<^verbatim>\<open>IsError()\<close>, the body decoded
  as an error (read only when \<^verbatim>\<open>IsError()\<close> holds) and the body decoded into a
  \<^verbatim>\<open>result\<close> (\<open>None\<close> when \<^verbatim>\<open>Decode\<close> returns an error).
\<close>

record 'a response =
  IsError :: bool
  ErrorBody :: error_body
  Body :: "'a result option"

text \<open>
  What a call of the client returns: \<^verbatim>\<open>(res *esapi.Response, err error)\<close>, each of
  them nil or not.
\<close>

type_synonym 'a reply = "'a response option \<times> string option"

text \<open>
  The collaborators of one run: \<^verbatim>\<open>json.Marshal\<close> (\<open>None\<close> when it returns an
  error, its byte slice being nil then), the reply of the search request, the reply of
  the \<open>k\<close>-th scroll request, and whether the \<open>k\<close>-th \<^verbatim>\<open>Write\<close> of the output returns
  an error.
\<close>

record 'a env =
  json_Marshal :: "'a \<Rightarrow> string option"
  Search :: "'a reply"
  Scroll :: "nat \<Rightarrow> 'a reply"
  WriteFails :: "nat \<Rightarrow> bool"

text \<open>
  The state of a run: the fields of \<^verbatim>\<open>App\<close> that the driver uses (\<^verbatim>\<open>opts.maxResult\<close>,
  \<^verbatim>\<open>queryResult\<close>, \<^verbatim>\<open>numResult\<close>, \<^verbatim>\<open>scrollIDs\<close>, \<^verbatim>\<open>sIDs\<close>), the package variables
  \<^verbatim>\<open>totalLines\<close> and \<^verbatim>\<open>hitResult\<close>, and what the run has done to the outside so far:
  \<^item> \<open>written\<close>: the \<^verbatim>\<open>Write\<close> calls on the output, each with its bytes and whether it
    returned an error;
  \<^item> \<open>flushed\<close>: the arguments of the \<^verbatim>\<open>flushToFile\<close> calls;
  \<^item> \<open>scrolled\<close>: the scroll ids of the scroll requests sent;
  \<^item> \<open>cleared\<close>: the scroll ids of the clear-scroll requests sent.
\<close>

record 'a App =
  maxResult :: int64
  queryResult :: uint64
  numResult :: uint64
  scrollIDs :: "string list"
  sIDs :: "string set"
  totalLines :: uint64
  hitResult :: "'a hit list"
  written :: "(string \<times> bool) list"
  flushed :: "'a hit list list"
  scrolled :: "string list"
  cleared :: "string list"

text \<open>How a run ends when it does not return; \<open>OutOfFuel\<close> belongs to the model only.\<close>

datatype failure =
    FatalSearchResponse string
  | FatalScrollResponse string
  | FatalParseBody
  | FatalClusterError string string
  | PanicNilDereference
  | PanicTypeAssertion
  | OutOfFuel

definition FLUSHBUFFER :: nat where
  "FLUSHBUFFER = 1000"

definition newApp :: "int64 \<Rightarrow> 'a App" where
  "newApp m = \<lparr> maxResult = m, queryResult = 0, numResult = 0, scrollIDs = [],
     sIDs = {}, totalLines = 0, hitResult = [], written = [], flushed = [],
     scrolled = [], cleared = [] \<rparr>"

subsection \<open>flushToFile\<close>

text \<open>
  The loop of \<^verbatim>\<open>flushToFile\<close> over the hits: \<^verbatim>\<open>j, _ := json.Marshal(v.Source)\<close>, then
  \<^verbatim>\<open>buf.Write(j)\<close> and \<^verbatim>\<open>buf.WriteByte('\n')\<close>. When \<^verbatim>\<open>Marshal\<close> fails \<^verbatim>\<open>j\<close> is nil
  and \<^verbatim>\<open>buf.Write\<close> adds nothing.
\<close>

primrec flushLoop :: "('a \<Rightarrow> string option) \<Rightarrow> 'a hit list \<Rightarrow> string \<Rightarrow> string" where
  "flushLoop m [] buf = buf"
| "flushLoop m (v # vs) buf =
     flushLoop m vs ((buf @ (case m (Source v) of None \<Rightarrow> [] | Some j \<Rightarrow> j)) @ [CHR 0x0A])"

text \<open>
  \<^verbatim>\<open>flushToFile\<close>: the buffer is reset, filled by the loop and handed to one \<^verbatim>\<open>Write\<close>
  of the output, whose results are not looked at.
\<close>

definition flushToFile :: "'a env \<Rightarrow> 'a hit list \<Rightarrow> 'a App \<Rightarrow> 'a App" where
  "flushToFile e hs t =
     (let buf = flushLoop (json_Marshal e) hs [];
          err = WriteFails e (length (written t))
      in t\<lparr> written := written t @ [(buf, err)], flushed := flushed t @ [hs] \<rparr>)"

subsection \<open>parseResult, scroll and search\<close>

text \<open>
  The loop \<^verbatim>\<open>for _, v := range r.Hits.Hits\<close> of \<^verbatim>\<open>parseResult\<close>, with its
  \<^verbatim>\<open>break\<close> once the limit is reached.
\<close>

fun forHits :: "'a env \<Rightarrow> 'a hit list \<Rightarrow> 'a App \<Rightarrow> 'a App" where
  "forHits e [] t = t"
| "forHits e (v # vs) t =
     (let t1 = t\<lparr> totalLines := totalLines t + 1, hitResult := hitResult t @ [v] \<rparr>;
          t2 = (if length (hitResult t1) = FLUSHBUFFER
                then (flushToFile e (hitResult t1) t1)\<lparr> hitResult := [] \<rparr>
                else t1)
      in if 0 <s maxResult t2 \<and> totalLines t2 = maxResult t2
         then (flushToFile e (hitResult t2) t2)\<lparr> hitResult := [] \<rparr>
         else forHits e vs t2)"

text \<open>
  \<^verbatim>\<open>parseResult\<close>, its loop \<^verbatim>\<open>for totalLines != t.numResult\<close> and \<^verbatim>\<open>scroll\<close> call each
  other; the first argument bounds the number of nested calls.
  \<^item> \<open>parseResult\<close>: an error response is fatal (or panics in the type assertion on
    \<^verbatim>\<open>e["error"]\<close>), so is a body that does not decode; then \<^verbatim>\<open>queryResult\<close> and
    \<^verbatim>\<open>numResult\<close> are set, the loop runs if there is something to do, and what is left
    in the buffer is flushed.
  \<^item> \<open>whileLoop\<close>: one round records the scroll id, runs \<open>forHits\<close> over the page
    \<^verbatim>\<open>r\<close> and calls \<^verbatim>\<open>t.scroll(r.ScrollID)\<close>.
  \<^item> \<open>scroll\<close>: sends the request; \<^verbatim>\<open>defer res.Body.Close()\<close> evaluates \<^verbatim>\<open>res.Body\<close>
    at once, before \<^verbatim>\<open>err\<close> is tested.
\<close>

fun parseResult :: "nat \<Rightarrow> 'a env \<Rightarrow> 'a response \<Rightarrow> 'a App \<Rightarrow> failure + 'a App"
  and whileLoop :: "nat \<Rightarrow> 'a env \<Rightarrow> 'a result \<Rightarrow> 'a App \<Rightarrow> failure + 'a App"
  and scroll :: "nat \<Rightarrow> 'a env \<Rightarrow> string \<Rightarrow> 'a App \<Rightarrow> failure + 'a App"
where
  "parseResult 0 e response t = Inl OutOfFuel"
| "parseResult (Suc n) e response t =
     (if IsError response then
        (case ErrorBody response of
           BadJSON \<Rightarrow> Inl FatalParseBody
         | NoErrorObject \<Rightarrow> Inl PanicTypeAssertion
         | ErrorObject ty reason \<Rightarrow> Inl (FatalClusterError ty reason))
      else
        (case Body response of
           None \<Rightarrow> Inl FatalParseBody
         | Some r \<Rightarrow>
             (let t1 = t\<lparr> queryResult := Total (Hits r) \<rparr>;
                  t2 = (if 0 <s maxResult t1
                        then t1\<lparr> numResult := maxResult t1 \<rparr>
                        else t1\<lparr> numResult := queryResult t1 \<rparr>)
              in if 0 < numResult t2 \<and> 0 < length (Hits' (Hits r)) then
                   (case whileLoop n e r t2 of
                      Inl f \<Rightarrow> Inl f
                    | Inr t3 \<Rightarrow>
                        if 0 < length (hitResult t3)
                        then Inr ((flushToFile e (hitResult t3) t3)\<lparr> hitResult := [] \<rparr>)
                        else Inr t3)
                 else Inr t2)))"
| "whileLoop 0 e r t = Inl OutOfFuel"
| "whileLoop (Suc n) e r t =
     (if totalLines t \<noteq> numResult t then
        (let t1 = (if ScrollID r \<notin> sIDs t then t\<lparr> sIDs := insert (ScrollID r) (sIDs t) \<rparr> else t);
             t2 = forHits e (Hits' (Hits r)) t1
         in case scroll n e (ScrollID r) t2 of
              Inl f \<Rightarrow> Inl f
            | Inr t3 \<Rightarrow> whileLoop n e r t3)
      else Inr t)"
| "scroll 0 e scrollID t = Inl OutOfFuel"
| "scroll (Suc n) e scrollID t =
     (let (res, err) = Scroll e (length (scrolled t));
          t1 = t\<lparr> scrolled := scrolled t @ [scrollID] \<rparr>
      in case res of
           None \<Rightarrow> Inl PanicNilDereference
         | Some response \<Rightarrow>
             (case err of
                Some msg \<Rightarrow> Inl (FatalScrollResponse msg)
              | None \<Rightarrow> parseResult n e response t1))"

text \<open>\<^verbatim>\<open>search\<close>: as \<open>scroll\<close>, with the reply of the search request.\<close>

definition search :: "nat \<Rightarrow> 'a env \<Rightarrow> 'a App \<Rightarrow> failure + 'a App" where
  "search n e t =
     (let (res, err) = Search e
      in case res of
           None \<Rightarrow> Inl PanicNilDereference
         | Some response \<Rightarrow>
             (case err of
                Some msg \<Rightarrow> Inl (FatalSearchResponse msg)
              | None \<Rightarrow> parseResult n e response t))"

subsection \<open>clearScroll and run\<close>

text \<open>\<^verbatim>\<open>strings.Join\<close>.\<close>

fun strings_Join :: "string list \<Rightarrow> string \<Rightarrow> string" where
  "strings_Join [] sep = []"
| "strings_Join [x] sep = x"
| "strings_Join (x # y # ys) sep = x @ sep @ strings_Join (y # ys) sep"

text \<open>
  \<^verbatim>\<open>ClearScroll.WithScrollID(v)\<close> of the client library is an option: a function that
  sets the scroll id of a clear-scroll request it is given. It sends nothing.
\<close>

definition WithScrollID :: "string \<Rightarrow> string \<Rightarrow> string" where
  "WithScrollID v = (\<lambda>request_scroll_id. v)"

text \<open>
  \<^verbatim>\<open>clearScroll\<close> builds that option from \<^verbatim>\<open>t.scrollIDs\<close> and drops it: the body is the
  single expression statement
  \<^verbatim>\<open>t.esClient.ClearScroll.WithScrollID(strings.Join(t.scrollIDs, ","))\<close>.
\<close>

definition clearScroll :: "'a App \<Rightarrow> 'a App" where
  "clearScroll t = (let option = WithScrollID (strings_Join (scrollIDs t) '','') in t)"

text \<open>
  \<^verbatim>\<open>run\<close>, from \<^verbatim>\<open>t.search()\<close> on (the client, index check and query are built before
  and do not touch the state above).
\<close>

definition run :: "nat \<Rightarrow> 'a env \<Rightarrow> int64 \<Rightarrow> failure + 'a App" where
  "run n e m =
     (case search n e (newApp m) of
        Inl f \<Rightarrow> Inl f
      | Inr t \<Rightarrow> Inr (clearScroll t))"

subsection \<open>Parts of the driver, named\<close>

text \<open>
  The three pieces of \<^verbatim>\<open>parseResult\<close> that the proofs talk about: the assignments to
  \<^verbatim>\<open>queryResult\<close> and \<^verbatim>\<open>numResult\<close>, the flush after the loop, and one round of the
  loop up to its \<^verbatim>\<open>scroll\<close> call.
\<close>

definition setTotals :: "'a result \<Rightarrow> 'a App \<Rightarrow> 'a App" where
  "setTotals r t =
     (if 0 <s maxResult t
      then t\<lparr> queryResult := Total (Hits r), numResult := maxResult t \<rparr>
      else t\<lparr> queryResult := Total (Hits r), numResult := Total (Hits r) \<rparr>)"

definition flushRest :: "'a env \<Rightarrow> 'a App \<Rightarrow> 'a App" where
  "flushRest e t =
     (if 0 < length (hitResult t)
      then (flushToFile e (hitResult t) t)\<lparr> hitResult := [] \<rparr>
      else t)"

definition onePass :: "'a env \<Rightarrow> 'a result \<Rightarrow> 'a App \<Rightarrow> 'a App" where
  "onePass e r t =
     forHits e (Hits' (Hits r))
       (if ScrollID r \<notin> sIDs t then t\<lparr> sIDs := insert (ScrollID r) (sIDs t) \<rparr> else t)"

subsection \<open>What a run is compared with\<close>

text \<open>The total that a reply reports (0 when there is no decodable page in it).\<close>

definition reportedTotal :: "'a reply \<Rightarrow> uint64" where
  "reportedTotal rep =
     (case fst rep of
        None \<Rightarrow> 0
      | Some response \<Rightarrow> (case Body response of None \<Rightarrow> 0 | Some r \<Rightarrow> Total (Hits r)))"

text \<open>The reply to the last request that the run has sent.\<close>

definition lastReply :: "'a env \<Rightarrow> 'a App \<Rightarrow> 'a reply" where
  "lastReply e t = (if scrolled t = [] then Search e else Scroll e (length (scrolled t) - 1))"

text \<open>
  A state with the error flags of its writes reset, and the collaborators with an
  output that never fails.
\<close>

definition unflagged :: "'a App \<Rightarrow> 'a App" where
  "unflagged t = t\<lparr> written := map (\<lambda>w. (fst w, False)) (written t) \<rparr>"

definition reliable :: "'a env \<Rightarrow> 'a env" where
  "reliable e = e\<lparr> WriteFails := (\<lambda>k. False) \<rparr>"

text \<open>
  The shape of the flush calls of a run without limit. While pages are processed the
  buffer is below the threshold and every flush so far was a full one (\<open>allFull\<close>);
  once the rest has been flushed the buffer is empty, the loop condition is false and
  only the last flush may be shorter (\<open>drained\<close>).
\<close>

definition allFull :: "'a App \<Rightarrow> bool" where
  "allFull t \<longleftrightarrow>
     length (hitResult t) < FLUSHBUFFER \<and> (\<forall>hs\<in>set (flushed t). length hs = FLUSHBUFFER)"



text \<open>The hits of the page that answers the search (none when there is no such page).\<close>

definition firstHits :: "'a env \<Rightarrow> 'a hit list" where
  "firstHits e =
     (case fst (Search e) of
        None \<Rightarrow> []
      | Some response \<Rightarrow> (case Body response of None \<Rightarrow> [] | Some r \<Rightarrow> Hits' (Hits r)))"

text \<open>
  One step of the loop over the hits, up to the test of the limit: the count and the
  buffer grow by the hit, and a buffer that has become full is flushed.
\<close>

definition addHit :: "'a env \<Rightarrow> 'a hit \<Rightarrow> 'a App \<Rightarrow> 'a App" where
  "addHit e v t =
     (if Suc (length (hitResult t)) = FLUSHBUFFER
      then (flushToFile e (hitResult t @ [v])
              (t\<lparr> totalLines := totalLines t + 1, hitResult := hitResult t @ [v] \<rparr>))
           \<lparr> hitResult := [] \<rparr>
      else t\<lparr> totalLines := totalLines t + 1, hitResult := hitResult t @ [v] \<rparr>)"

text \<open>
  The shape of the flush calls of a run with a limit. Until the limit is reached every
  flush was a full one, the count is the number of records flushed or buffered, and
  it is below the limit (\<open>belowLimit\<close>); the flush made when the limit is reached is
  the last one, has less than a full buffer, and leaves as many records flushed as the
  limit says (\<open>atLimit\<close>).
\<close>

definition belowLimit :: "'a App \<Rightarrow> bool" where
  "belowLimit t \<longleftrightarrow>
     allFull t \<and>
     totalLines t = of_nat (length (concat (flushed t)) + length (hitResult t)) \<and>
     length (concat (flushed t)) + length (hitResult t) < unat (maxResult t)"

definition atLimit :: "'a App \<Rightarrow> bool" where
  "atLimit t \<longleftrightarrow>
     hitResult t = [] \<and> totalLines t = maxResult t \<and> flushed t \<noteq> [] \<and>
     (\<forall>hs\<in>set (butlast (flushed t)). length hs = FLUSHBUFFER) \<and>
     length (last (flushed t)) < FLUSHBUFFER \<and>
     length (concat (flushed t)) = unat (maxResult t)"

subsection \<open>Concrete collaborators\<close>

text \<open>
  A successful response whose body is the page with scroll id \<open>sid\<close>, total \<open>n\<close>
  and documents \<open>ds\<close>.
\<close>

definition page :: "string \<Rightarrow> uint64 \<Rightarrow> 'a list \<Rightarrow> 'a response" where
  "page sid n ds = \<lparr> IsError = False, ErrorBody = BadJSON,
     Body = Some \<lparr> ScrollID = sid, Hits = \<lparr> Total = n, Hits' = map Hit ds \<rparr> \<rparr> \<rparr>"

text \<open>Scroll replies: the pages \<open>ps\<close> in turn, then \<open>d\<close> for ever.\<close>

definition served :: "'a response list \<Rightarrow> 'a response \<Rightarrow> nat \<Rightarrow> 'a reply" where
  "served ps d k = (if k < length ps then (Some (ps ! k), None) else (Some d, None))"

text \<open>
  A cluster that answers the search with \<open>p\<close> and the scroll requests with
  \<open>served ps d\<close>, documents serialised by \<open>m\<close>, and an output that takes every write.
\<close>

definition cluster ::
  "'a response \<Rightarrow> 'a response list \<Rightarrow> 'a response \<Rightarrow> ('a \<Rightarrow> string option) \<Rightarrow> 'a env" where
  "cluster p ps d m =
     \<lparr> json_Marshal = m, Search = (Some p, None), Scroll = served ps d,
       WriteFails = (\<lambda>k. False) \<rparr>"

text \<open>A serialiser that fails on the document \<open>bad\<close> and copies every other one.\<close>

definition marshalUnless :: "string \<Rightarrow> string \<Rightarrow> string option" where
  "marshalUnless bad d = (if d = bad then None else Some d)"

text \<open>An output whose every write returns an error.\<close>

definition diskFull :: "nat \<Rightarrow> bool" where
  "diskFull k = True"

section \<open>Properties\<close>

subsection \<open>Fields that the parts leave alone\<close>

lemma flushToFile_fields [simp]:
  "maxResult (flushToFile e hs t) = maxResult t"
  "queryResult (flushToFile e hs t) = queryResult t"
  "numResult (flushToFile e hs t) = numResult t"
  "scrollIDs (flushToFile e hs t) = scrollIDs t"
  "sIDs (flushToFile e hs t) = sIDs t"
  "totalLines (flushToFile e hs t) = totalLines t"
  "hitResult (flushToFile e hs t) = hitResult t"
  "scrolled (flushToFile e hs t) = scrolled t"
  "cleared (flushToFile e hs t) = cleared t"
  "flushed (flushToFile e hs t) = flushed t @ [hs]"
  by (simp_all add: flushToFile_def Let_def)

lemma forHits_fields [simp]:
  "maxResult (forHits e vs t) = maxResult t"
  "queryResult (forHits e vs t) = queryResult t"
  "numResult (forHits e vs t) = numResult t"
  "scrollIDs (forHits e vs t) = scrollIDs t"
  "sIDs (forHits e vs t) = sIDs t"
  "scrolled (forHits e vs t) = scrolled t"
  "cleared (forHits e vs t) = cleared t"
  by (induction vs arbitrary: t; simp add: Let_def)+

lemma setTotals_fields [simp]:
  "maxResult (setTotals r t) = maxResult t"
  "queryResult (setTotals r t) = Total (Hits r)"
  "numResult (setTotals r t) = (if 0 <s maxResult t then maxResult t else Total (Hits r))"
  "scrollIDs (setTotals r t) = scrollIDs t"
  "sIDs (setTotals r t) = sIDs t"
  "totalLines (setTotals r t) = totalLines t"
  "hitResult (setTotals r t) = hitResult t"
  "written (setTotals r t) = written t"
  "flushed (setTotals r t) = flushed t"
  "scrolled (setTotals r t) = scrolled t"
  "cleared (setTotals r t) = cleared t"
  by (simp_all add: setTotals_def)

lemma flushRest_fields [simp]:
  "maxResult (flushRest e t) = maxResult t"
  "queryResult (flushRest e t) = queryResult t"
  "numResult (flushRest e t) = numResult t"
  "scrollIDs (flushRest e t) = scrollIDs t"
  "sIDs (flushRest e t) = sIDs t"
  "totalLines (flushRest e t) = totalLines t"
  "hitResult (flushRest e t) = []"
  "scrolled (flushRest e t) = scrolled t"
  "cleared (flushRest e t) = cleared t"
  by (simp_all add: flushRest_def)

lemma onePass_fields [simp]:
  "maxResult (onePass e r t) = maxResult t"
  "queryResult (onePass e r t) = queryResult t"
  "numResult (onePass e r t) = numResult t"
  "scrollIDs (onePass e r t) = scrollIDs t"
  "sIDs (onePass e r t) = insert (ScrollID r) (sIDs t)"
  "scrolled (onePass e r t) = scrolled t"
  "cleared (onePass e r t) = cleared t"
  by (auto simp: onePass_def)

lemma parseResult_Suc:
  "parseResult (Suc n) e response t =
     (if IsError response then
        (case ErrorBody response of
           BadJSON \<Rightarrow> Inl FatalParseBody
         | NoErrorObject \<Rightarrow> Inl PanicTypeAssertion
         | ErrorObject ty reason \<Rightarrow> Inl (FatalClusterError ty reason))
      else
        (case Body response of
           None \<Rightarrow> Inl FatalParseBody
         | Some r \<Rightarrow>
             if 0 < numResult (setTotals r t) \<and> Hits' (Hits r) \<noteq> []
             then (case whileLoop n e r (setTotals r t) of
                     Inl f \<Rightarrow> Inl f
                   | Inr t3 \<Rightarrow> Inr (flushRest e t3))
             else Inr (setTotals r t)))"
  by (simp add: setTotals_def flushRest_def Let_def split: option.splits sum.splits)

lemma whileLoop_Suc:
  "whileLoop (Suc n) e r t =
     (if totalLines t \<noteq> numResult t
      then (case scroll n e (ScrollID r) (onePass e r t) of
              Inl f \<Rightarrow> Inl f
            | Inr t3 \<Rightarrow> whileLoop n e r t3)
      else Inr t)"
  by (simp add: onePass_def Let_def)

lemma scroll_Suc:
  "scroll (Suc n) e scrollID t =
     (case Scroll e (length (scrolled t)) of
        (None, err) \<Rightarrow> Inl PanicNilDereference
      | (Some response, Some msg) \<Rightarrow> Inl (FatalScrollResponse msg)
      | (Some response, None) \<Rightarrow>
          parseResult n e response (t\<lparr> scrolled := scrolled t @ [scrollID] \<rparr>))"
  by (simp add: Let_def split: prod.splits option.splits)

lemma driver_induct:
  assumes skip: "\<And>resp r t. \<lbrakk>\<not> IsError resp; Body resp = Some r;
        \<not> (0 < numResult (setTotals r t) \<and> Hits' (Hits r) \<noteq> [])\<rbrakk>
        \<Longrightarrow> P resp t (setTotals r t)"
    and enter: "\<And>resp r t t3. \<lbrakk>\<not> IsError resp; Body resp = Some r;
        0 < numResult (setTotals r t); Hits' (Hits r) \<noteq> []; W r (setTotals r t) t3\<rbrakk>
        \<Longrightarrow> P resp t (flushRest e t3)"
    and leave: "\<And>r t. totalLines t = numResult t \<Longrightarrow> W r t t"
    and round: "\<And>r t t3 t'. \<lbrakk>totalLines t \<noteq> numResult t;
        S (ScrollID r) (onePass e r t) t3; W r t3 t'\<rbrakk> \<Longrightarrow> W r t t'"
    and fetch: "\<And>sid t resp t'. \<lbrakk>Scroll e (length (scrolled t)) = (Some resp, None);
        P resp (t\<lparr> scrolled := scrolled t @ [sid] \<rparr>) t'\<rbrakk> \<Longrightarrow> S sid t t'"
  shows "(\<forall>resp t t'. parseResult n e resp t = Inr t' \<longrightarrow> P resp t t')
       \<and> (\<forall>r t t'. whileLoop n e r t = Inr t' \<longrightarrow> W r t t')
       \<and> (\<forall>sid t t'. scroll n e sid t = Inr t' \<longrightarrow> S sid t t')"
proof (induction n)
  case 0
  show ?case by simp
next
  case (Suc n)
  have p: "P resp t t'" if "parseResult (Suc n) e resp t = Inr t'" for resp t t'
    using that Suc skip enter
    by (auto simp: parseResult_Suc simp del: parseResult.simps split: if_splits error_body.splits option.splits sum.splits)
  have w: "W r t t'" if h: "whileLoop (Suc n) e r t = Inr t'" for r t t'
  proof (cases "totalLines t = numResult t")
    case True
    with h have "t' = t"
      by (simp add: whileLoop_Suc del: whileLoop.simps)
    with True leave show ?thesis by simp
  next
    case False
    with h obtain t3 where a: "scroll n e (ScrollID r) (onePass e r t) = Inr t3"
      and b: "whileLoop n e r t3 = Inr t'"
      by (auto simp: whileLoop_Suc simp del: whileLoop.simps split: sum.splits)
    from a Suc have "S (ScrollID r) (onePass e r t) t3" by blast
    moreover from b Suc have "W r t3 t'" by blast
    ultimately show ?thesis using False round by blast
  qed
  have s: "S sid t t'" if "scroll (Suc n) e sid t = Inr t'" for sid t t'
    using that Suc fetch
    by (auto simp: scroll_Suc simp del: scroll.simps split: prod.splits option.splits)
  from p w s show ?case by blast
qed

subsection \<open>Results of a run, by induction on the bound\<close>

lemma unfold_run:
  "run n e m = Inr t \<Longrightarrow>
     \<exists>resp t'. Search e = (Some resp, None) \<and> parseResult n e resp (newApp m) = Inr t' \<and> t = t'"
  by (auto simp: run_def search_def clearScroll_def Let_def split: sum.splits prod.splits option.splits)

lemma total_inv:
  "(\<forall>resp t t'. parseResult n e resp t = Inr t' \<longrightarrow>
      length (scrolled t) \<le> length (scrolled t') \<and>
      queryResult t' = (if length (scrolled t') = length (scrolled t)
                        then reportedTotal (Some resp, None)
                        else reportedTotal (Scroll e (length (scrolled t') - 1))))
 \<and> (\<forall>r t t'. whileLoop n e r t = Inr t' \<longrightarrow>
      length (scrolled t) \<le> length (scrolled t') \<and>
      queryResult t' = (if length (scrolled t') = length (scrolled t)
                        then queryResult t
                        else reportedTotal (Scroll e (length (scrolled t') - 1))))
 \<and> (\<forall>sid t t'. scroll n e sid t = Inr t' \<longrightarrow>
      length (scrolled t) < length (scrolled t') \<and>
      queryResult t' = reportedTotal (Scroll e (length (scrolled t') - 1)))"
  by (rule driver_induct) (auto simp: reportedTotal_def split: if_splits)

lemma run_total:
  assumes "run n e m = Inr t"
  shows "queryResult t = reportedTotal (lastReply e t)"
proof -
  from unfold_run[OF assms] obtain resp where s: "Search e = (Some resp, None)"
    and p: "parseResult n e resp (newApp m) = Inr t" by blast
  from total_inv[of n e] p have
    "queryResult t = (if length (scrolled t) = length (scrolled (newApp m :: 'a App))
                        then reportedTotal (Some resp, None)
                        else reportedTotal (Scroll e (length (scrolled t) - 1)))"
    by blast
  then show ?thesis using s by (simp add: lastReply_def newApp_def)
qed

lemma unlimited_inv:
  "(\<forall>resp t t'. parseResult n e resp t = Inr t' \<longrightarrow> \<not> 0 <s maxResult t \<longrightarrow>
      maxResult t' = maxResult t \<and> numResult t' = queryResult t' \<and>
      (case Body resp of None \<Rightarrow> True | Some r \<Rightarrow>
         Hits' (Hits r) \<noteq> [] \<longrightarrow> Total (Hits r) \<noteq> 0 \<longrightarrow> totalLines t' = numResult t'))
 \<and> (\<forall>r t t'. whileLoop n e r t = Inr t' \<longrightarrow> \<not> 0 <s maxResult t \<longrightarrow>
      numResult t = queryResult t \<longrightarrow>
      maxResult t' = maxResult t \<and> numResult t' = queryResult t' \<and> totalLines t' = numResult t')
 \<and> (\<forall>sid t t'. scroll n e sid t = Inr t' \<longrightarrow> \<not> 0 <s maxResult t \<longrightarrow>
      maxResult t' = maxResult t \<and> numResult t' = queryResult t')"
  by (rule driver_induct) (auto simp: setTotals_def word_greater_zero_iff split: if_splits)

subsection \<open>Flush calls of a run without limit\<close>








lemma concat_full:
  "\<forall>hs\<in>set fs. length hs = k \<Longrightarrow> length (concat fs) = k * length fs"
  by (induction fs) auto



subsection \<open>A page that neither fills the buffer nor reaches the limit\<close>



subsection \<open>Runs whose writes fail\<close>

lemma unflagged_fields [simp]:
  "maxResult (unflagged t) = maxResult t"
  "queryResult (unflagged t) = queryResult t"
  "numResult (unflagged t) = numResult t"
  "scrollIDs (unflagged t) = scrollIDs t"
  "sIDs (unflagged t) = sIDs t"
  "totalLines (unflagged t) = totalLines t"
  "hitResult (unflagged t) = hitResult t"
  "flushed (unflagged t) = flushed t"
  "scrolled (unflagged t) = scrolled t"
  "cleared (unflagged t) = cleared t"
  by (simp_all add: unflagged_def)

lemma reliable_fields [simp]:
  "json_Marshal (reliable e) = json_Marshal e"
  "Search (reliable e) = Search e"
  "Scroll (reliable e) = Scroll e"
  "WriteFails (reliable e) k = False"
  by (simp_all add: reliable_def)

lemma unflagged_flushToFile:
  "unflagged (flushToFile e hs t) = flushToFile (reliable e) hs (unflagged t)"
  by (simp add: unflagged_def flushToFile_def Let_def)

lemma unflagged_update [simp]:
  "unflagged (t\<lparr> hitResult := h \<rparr>) = (unflagged t)\<lparr> hitResult := h \<rparr>"
  "unflagged (t\<lparr> totalLines := n \<rparr>) = (unflagged t)\<lparr> totalLines := n \<rparr>"
  "unflagged (t\<lparr> sIDs := s \<rparr>) = (unflagged t)\<lparr> sIDs := s \<rparr>"
  "unflagged (t\<lparr> queryResult := q \<rparr>) = (unflagged t)\<lparr> queryResult := q \<rparr>"
  "unflagged (t\<lparr> numResult := q \<rparr>) = (unflagged t)\<lparr> numResult := q \<rparr>"
  "unflagged (t\<lparr> scrolled := c \<rparr>) = (unflagged t)\<lparr> scrolled := c \<rparr>"
  by (simp_all add: unflagged_def)

lemma unflagged_forHits:
  "unflagged (forHits e vs t) = forHits (reliable e) vs (unflagged t)"
  by (induction vs arbitrary: t) (simp_all add: Let_def unflagged_flushToFile)

lemma unflagged_setTotals:
  "unflagged (setTotals r t) = setTotals r (unflagged t)"
  by (simp add: setTotals_def)

lemma unflagged_flushRest:
  "unflagged (flushRest e t) = flushRest (reliable e) (unflagged t)"
  by (simp add: flushRest_def unflagged_flushToFile)

lemma unflagged_onePass:
  "unflagged (onePass e r t) = onePass (reliable e) r (unflagged t)"
  by (simp add: onePass_def unflagged_forHits)

lemma unflagged_driver:
  "map_sum id unflagged (parseResult n e resp t) = parseResult n (reliable e) resp (unflagged t)
 \<and> map_sum id unflagged (whileLoop n e r t) = whileLoop n (reliable e) r (unflagged t)
 \<and> map_sum id unflagged (scroll n e sid t) = scroll n (reliable e) sid (unflagged t)"
proof (induction n arbitrary: resp r sid t)
  case 0
  show ?case by simp
next
  case (Suc n)
  have p: "map_sum id unflagged (parseResult (Suc n) e resp t)
       = parseResult (Suc n) (reliable e) resp (unflagged t)"
    using Suc[where r="the (Body resp)" and t="setTotals (the (Body resp)) t"]
    by (auto simp: parseResult_Suc unflagged_setTotals unflagged_flushRest
        simp del: parseResult.simps
        split: error_body.splits option.splits sum.splits)
  have w: "map_sum id unflagged (whileLoop (Suc n) e r t)
       = whileLoop (Suc n) (reliable e) r (unflagged t)"
  proof -
    have sc: "scroll n (reliable e) (ScrollID r) (onePass (reliable e) r (unflagged t))
        = map_sum id unflagged (scroll n e (ScrollID r) (onePass e r t))"
      using Suc[where sid="ScrollID r" and t="onePass e r t"]
      by (simp add: unflagged_onePass id_def)
    show ?thesis
    proof (cases "scroll n e (ScrollID r) (onePass e r t)")
      case (Inl f)
      then show ?thesis
        by (simp add: whileLoop_Suc sc del: whileLoop.simps)
    next
      case (Inr t3)
      have "map_sum id unflagged (whileLoop n e r t3) = whileLoop n (reliable e) r (unflagged t3)"
        using Suc[where r=r and t=t3] by (simp add: id_def)
      with Inr show ?thesis
        by (simp add: whileLoop_Suc sc del: whileLoop.simps)
    qed
  qed
  have s: "map_sum id unflagged (scroll (Suc n) e sid t)
       = scroll (Suc n) (reliable e) sid (unflagged t)"
  proof (cases "Scroll e (length (scrolled t))")
    case (Pair res err)
    show ?thesis
    proof (cases res)
      case None
      with Pair show ?thesis by (simp add: scroll_Suc del: scroll.simps)
    next
      case (Some response)
      have "map_sum id unflagged (parseResult n e response (t\<lparr> scrolled := scrolled t @ [sid] \<rparr>))
          = parseResult n (reliable e) response (unflagged (t\<lparr> scrolled := scrolled t @ [sid] \<rparr>))"
        using Suc[where resp=response and t="t\<lparr> scrolled := scrolled t @ [sid] \<rparr>"] by (simp add: id_def)
      with Pair Some show ?thesis
        by (cases err) (simp_all add: scroll_Suc del: scroll.simps)
    qed
  qed
  from p w s show ?case by blast
qed

lemma run_unflagged:
  "map_sum id unflagged (run n e m) = run n (reliable e) m"
proof -
  have u: "unflagged (newApp m :: 'a App) = newApp m"
    by (simp add: unflagged_def newApp_def)
  have "map_sum id unflagged (search n e (newApp m)) = search n (reliable e) (newApp m)"
    using unflagged_driver[where n=n and e=e and t="newApp m"] u
    by (auto simp: search_def split: prod.splits option.splits)
  then show ?thesis
    by (auto simp: run_def clearScroll_def Let_def split: sum.splits)
qed

subsection \<open>The bytes of a write are the lines of the records flushed\<close>

lemma forHits_rendered:
  "map fst (written t) = map (\<lambda>hs. flushLoop (json_Marshal e) hs []) (flushed t) \<Longrightarrow>
   map fst (written (forHits e vs t))
     = map (\<lambda>hs. flushLoop (json_Marshal e) hs []) (flushed (forHits e vs t))"
  by (induction vs arbitrary: t) (simp_all add: Let_def flushToFile_def)

lemma rendered_inv:
  "(\<forall>resp t t'. parseResult n e resp t = Inr t' \<longrightarrow>
      map fst (written t) = map (\<lambda>hs. flushLoop (json_Marshal e) hs []) (flushed t) \<longrightarrow>
      map fst (written t') = map (\<lambda>hs. flushLoop (json_Marshal e) hs []) (flushed t'))
 \<and> (\<forall>r t t'. whileLoop n e r t = Inr t' \<longrightarrow>
      map fst (written t) = map (\<lambda>hs. flushLoop (json_Marshal e) hs []) (flushed t) \<longrightarrow>
      map fst (written t') = map (\<lambda>hs. flushLoop (json_Marshal e) hs []) (flushed t'))
 \<and> (\<forall>sid t t'. scroll n e sid t = Inr t' \<longrightarrow>
      map fst (written t) = map (\<lambda>hs. flushLoop (json_Marshal e) hs []) (flushed t) \<longrightarrow>
      map fst (written t') = map (\<lambda>hs. flushLoop (json_Marshal e) hs []) (flushed t'))"
  by (rule driver_induct)
    (auto simp: flushRest_def flushToFile_def Let_def onePass_def forHits_rendered)

lemma run_rendered:
  assumes "run n e m = Inr t"
  shows "map fst (written t) = map (\<lambda>hs. flushLoop (json_Marshal e) hs []) (flushed t)"
proof -
  from unfold_run[OF assms] obtain resp where
    p: "parseResult n e resp (newApp m) = Inr t" by blast
  have "map fst (written (newApp m :: 'a App))
      = map (\<lambda>hs. flushLoop (json_Marshal e) hs []) (flushed (newApp m :: 'a App))"
    by (simp add: newApp_def)
  with rendered_inv[of n e] p show ?thesis by blast
qed

subsection \<open>A source that runs dry before the reported total\<close>

text \<open>
  Without a limit, a first page of two documents that reports five, followed by empty
  pages only: the count stays even, never equals five, and no bound on the nested
  calls is enough for the run to return.
\<close>

lemma forHits_unlimited_count:
  "\<not> 0 <s maxResult t \<Longrightarrow> totalLines (forHits e vs t) = totalLines t + of_nat (length vs)"
  by (induction vs arbitrary: t) (simp_all add: Let_def)

lemma never_returns_loop:
  "maxResult t = 0 \<Longrightarrow> numResult t = 5 \<Longrightarrow> even (totalLines t) \<Longrightarrow>
   whileLoop n (cluster (page ''s1'' 5 [''1'', ''2'']) [] (page ''s1'' 5 []) Some)
     \<lparr> ScrollID = ''s1'', Hits = \<lparr> Total = 5, Hits' = [Hit ''1'', Hit ''2''] \<rparr> \<rparr> t
   = Inl OutOfFuel"
proof (induction n arbitrary: t)
  case 0
  show ?case by simp
next
  case (Suc n)
  let ?e = "cluster (page ''s1'' 5 [''1'', ''2'']) [] (page ''s1'' 5 []) Some"
  let ?r = "\<lparr> ScrollID = ''s1'', Hits = \<lparr> Total = 5, Hits' = [Hit ''1'', Hit ''2''] \<rparr> \<rparr>"
  let ?t2 = "onePass ?e ?r t"
  have ne: "totalLines t \<noteq> numResult t"
    using Suc.prems by auto
  have m2: "maxResult ?t2 = 0" and n2: "numResult ?t2 = 5"
    using Suc.prems by simp_all
  have e2: "even (totalLines ?t2)"
    using Suc.prems by (simp add: onePass_def forHits_unlimited_count del: forHits.simps)
  have sc: "scroll n ?e ''s1'' ?t2 = Inl OutOfFuel \<or>
     (\<exists>t3. scroll n ?e ''s1'' ?t2 = Inr t3 \<and> maxResult t3 = 0 \<and> numResult t3 = 5
          \<and> even (totalLines t3))"
  proof (cases n)
    case 0
    then show ?thesis by simp
  next
    case (Suc k)
    show ?thesis
    proof (cases k)
      case 0
      with Suc show ?thesis
        by (simp add: scroll_Suc cluster_def served_def del: scroll.simps)
    next
      case (Suc j)
      with \<open>n = Suc k\<close> m2 n2 e2 show ?thesis
        by (simp add: scroll_Suc parseResult_Suc cluster_def served_def page_def
            del: scroll.simps parseResult.simps)
    qed
  qed
  then show ?case
  proof
    assume "scroll n ?e ''s1'' ?t2 = Inl OutOfFuel"
    with ne show ?thesis by (simp add: whileLoop_Suc del: whileLoop.simps)
  next
    assume "\<exists>t3. scroll n ?e ''s1'' ?t2 = Inr t3 \<and> maxResult t3 = 0 \<and> numResult t3 = 5
          \<and> even (totalLines t3)"
    then obtain t3 where a: "scroll n ?e ''s1'' ?t2 = Inr t3"
      and b: "maxResult t3 = 0" "numResult t3 = 5" "even (totalLines t3)" by blast
    from Suc.IH[OF b] a ne show ?thesis
      by (simp add: whileLoop_Suc del: whileLoop.simps)
  qed
qed

lemma short_source_never_returns:
  "run n (cluster (page ''s1'' 5 [''1'', ''2'']) [] (page ''s1'' 5 []) Some) 0 = Inl OutOfFuel"
proof (cases n)
  case 0
  then show ?thesis by (simp add: run_def search_def cluster_def)
next
  case (Suc k)
  have "whileLoop k (cluster (page ''s1'' 5 [''1'', ''2'']) [] (page ''s1'' 5 []) Some)
     \<lparr> ScrollID = ''s1'', Hits = \<lparr> Total = 5, Hits' = [Hit ''1'', Hit ''2''] \<rparr> \<rparr>
     (setTotals \<lparr> ScrollID = ''s1'', Hits = \<lparr> Total = 5, Hits' = [Hit ''1'', Hit ''2''] \<rparr> \<rparr>
        (newApp 0)) = Inl OutOfFuel"
    by (rule never_returns_loop) (simp_all add: newApp_def)
  then show ?thesis
    unfolding Suc
    by (simp add: run_def search_def parseResult_Suc cluster_def page_def newApp_def
        del: parseResult.simps)
qed

subsection \<open>Clear-scroll requests\<close>

lemma cleared_inv:
  "(\<forall>resp t t'. parseResult n e resp t = Inr t' \<longrightarrow> cleared t' = cleared t)
 \<and> (\<forall>r t t'. whileLoop n e r t = Inr t' \<longrightarrow> cleared t' = cleared t)
 \<and> (\<forall>sid t t'. scroll n e sid t = Inr t' \<longrightarrow> cleared t' = cleared t)"
  by (rule driver_induct) auto

lemma run_never_clears:
  assumes "run n e m = Inr t"
  shows "cleared t = []"
proof -
  from unfold_run[OF assms] obtain resp where
    p: "parseResult n e resp (newApp m) = Inr t" by blast
  with cleared_inv[of n e] show ?thesis by (auto simp: newApp_def)
qed

subsection \<open>The count of a run with a limit\<close>

lemma limited_inv:
  "(\<forall>resp t t'. parseResult n e resp t = Inr t' \<longrightarrow> 0 <s maxResult t \<longrightarrow>
      maxResult t' = maxResult t \<and> numResult t' = maxResult t' \<and>
      (case Body resp of None \<Rightarrow> True | Some r \<Rightarrow>
         Hits' (Hits r) \<noteq> [] \<longrightarrow> totalLines t' = maxResult t'))
 \<and> (\<forall>r t t'. whileLoop n e r t = Inr t' \<longrightarrow> 0 <s maxResult t \<longrightarrow>
      numResult t = maxResult t \<longrightarrow>
      maxResult t' = maxResult t \<and> numResult t' = maxResult t' \<and> totalLines t' = maxResult t')
 \<and> (\<forall>sid t t'. scroll n e sid t = Inr t' \<longrightarrow> 0 <s maxResult t \<longrightarrow>
      maxResult t' = maxResult t \<and> numResult t' = maxResult t')"
  by (rule driver_induct) (auto simp: word_sless_alt word_greater_zero_iff split: if_splits)

lemma limited_run_count:
  assumes r: "run n e m = Inr t" and m: "0 <s m"
    and s: "Search e = (Some resp, err)" and b: "Body resp = Some r"
    and h: "Hits' (Hits r) \<noteq> []"
  shows "totalLines t = m"
proof -
  from unfold_run[OF r] s have p: "parseResult n e resp (newApp m) = Inr t" by auto
  have m': "0 <s maxResult (newApp m :: 'a App)" using m by (simp add: newApp_def)
  from limited_inv[of n e] p m' b h have "totalLines t = maxResult t" "maxResult t = m"
    by (fastforce simp: newApp_def)+
  then show ?thesis by simp
qed

subsection \<open>Evaluating concrete runs\<close>

lemma flushLoop_eq:
  "flushLoop m hs buf =
     buf @ concat (map (\<lambda>v. (case m (Source v) of None \<Rightarrow> [] | Some j \<Rightarrow> j) @ [CHR 0x0A]) hs)"
  by (induction hs arbitrary: buf) auto

lemmas fuel =
  parseResult.simps(2)[of "pred_numeral k" for k, folded numeral_eq_Suc]
  whileLoop.simps(2)[of "pred_numeral k" for k, folded numeral_eq_Suc]
  scroll.simps(2)[of "pred_numeral k" for k, folded numeral_eq_Suc]

lemmas evaluate = run_def search_def cluster_def page_def served_def newApp_def
  flushToFile_def FLUSHBUFFER_def clearScroll_def fuel Let_def word_sless_alt
  marshalUnless_def diskFull_def

subsection \<open>One write for every flush call\<close>









lemma run_two_pages:
  "run 8 (cluster (page ''s1'' 2 [''1'']) [page ''s2'' 2 [''2''] ] (page ''s3'' 2 []) Some) 0 =
   Inr \<lparr> maxResult = 0, queryResult = 2, numResult = 2, scrollIDs = [],
         sIDs = {''s1'', ''s2''}, totalLines = 2, hitResult = [],
         written = [(''1\<newline>2\<newline>'', False)], flushed = [ [Hit ''1'', Hit ''2''] ],
         scrolled = [''s1'', ''s2''], cleared = [] \<rparr>"
  by (simp add: evaluate insert_commute cong: let_weak_cong)

lemma run_two_totals:
  "run 8 (cluster (page ''s1'' 2 [''1'']) [page ''s2'' 1 [''2''] ] (page ''s3'' 1 []) Some) 0 =
   Inr \<lparr> maxResult = 0, queryResult = 1, numResult = 1, scrollIDs = [],
         sIDs = {''s1''}, totalLines = 1, hitResult = [],
         written = [(''1\<newline>'', False)], flushed = [ [Hit ''1''] ],
         scrolled = [''s1''], cleared = [] \<rparr>"
  by (simp add: evaluate cong: let_weak_cong)

subsection \<open>Flush calls of a run with a limit\<close>

lemma of_nat_eq_limit:
  "k \<le> unat (M :: 64 word) \<Longrightarrow> (of_nat k = M) = (k = unat M)"
proof -
  assume k: "k \<le> unat M"
  have "unat M < 2 ^ 64" using unsigned_less[of M] by simp
  with k have "k < 2 ^ 64" by simp
  then have u: "unat (of_nat k :: 64 word) = k"
    by (simp add: unat_of_nat take_bit_nat_eq_self)
  show ?thesis
  proof
    assume "of_nat k = M"
    with u show "k = unat M" by auto
  next
    assume "k = unat M"
    then show "of_nat k = M" by simp
  qed
qed

lemma positive_limit: "0 <s (M :: 64 word) \<Longrightarrow> 0 < unat M"
  by (cases "M = 0") (auto simp: unat_gt_0)

lemma addHit_fields [simp]:
  "maxResult (addHit e v t) = maxResult t"
  "numResult (addHit e v t) = numResult t"
  "totalLines (addHit e v t) = totalLines t + 1"
  by (simp_all add: addHit_def)

lemma forHits_Cons:
  "forHits e (v # vs) t =
     (if 0 <s maxResult t \<and> totalLines t + 1 = maxResult t
      then (flushToFile e (hitResult (addHit e v t)) (addHit e v t))\<lparr> hitResult := [] \<rparr>
      else forHits e vs (addHit e v t))"
  by (simp add: Let_def addHit_def)

lemma belowLimit_addHit:
  assumes b: "belowLimit t"
  shows "\<forall>hs\<in>set (flushed (addHit e v t)). length hs = FLUSHBUFFER"
    and "length (hitResult (addHit e v t)) < FLUSHBUFFER"
    and "length (concat (flushed (addHit e v t))) + length (hitResult (addHit e v t))
          = Suc (length (concat (flushed t)) + length (hitResult t))"
proof -
  from b have full: "\<forall>hs\<in>set (flushed t). length hs = FLUSHBUFFER"
    and short: "length (hitResult t) < FLUSHBUFFER"
    by (simp_all add: belowLimit_def allFull_def)
  show "\<forall>hs\<in>set (flushed (addHit e v t)). length hs = FLUSHBUFFER"
    using full by (simp add: addHit_def)
  show "length (hitResult (addHit e v t)) < FLUSHBUFFER"
    using short by (simp add: addHit_def FLUSHBUFFER_def)
  show "length (concat (flushed (addHit e v t))) + length (hitResult (addHit e v t))
          = Suc (length (concat (flushed t)) + length (hitResult t))"
    by (simp add: addHit_def)
qed

lemma forHits_limit:
  "0 <s maxResult t \<Longrightarrow> belowLimit t \<Longrightarrow>
   belowLimit (forHits e vs t) \<or> atLimit (forHits e vs t)"
proof (induction vs arbitrary: t)
  case Nil
  then show ?case by simp
next
  case (Cons v vs)
  let ?K = "length (concat (flushed t)) + length (hitResult t)"
  let ?t2 = "addHit e v t"
  from Cons.prems(2) have tl: "totalLines t = of_nat ?K"
    and below: "?K < unat (maxResult t)"
    by (simp_all add: belowLimit_def)
  note a = belowLimit_addHit[OF Cons.prems(2), of e v]
  have tl2: "totalLines t + 1 = of_nat (Suc ?K)"
    using tl by simp
  have le: "Suc ?K \<le> unat (maxResult t)" using below by simp
  show ?case
  proof (cases "totalLines t + 1 = maxResult t")
    case True
    then have eq: "Suc ?K = unat (maxResult t)"
      using of_nat_eq_limit[OF le] tl2 by simp
    have res: "forHits e (v # vs) t = (flushToFile e (hitResult ?t2) ?t2)\<lparr> hitResult := [] \<rparr>"
      using True Cons.prems(1) by (simp add: forHits_Cons del: forHits.simps)
    have "atLimit ((flushToFile e (hitResult ?t2) ?t2)\<lparr> hitResult := [] \<rparr>)"
      unfolding atLimit_def using True a eq
      by (simp add: butlast_append)
    with res show ?thesis by simp
  next
    case False
    then have "Suc ?K \<noteq> unat (maxResult t)"
      using of_nat_eq_limit[OF le] tl2 by simp
    with le have lt: "Suc ?K < unat (maxResult t)" by simp
    have b2: "belowLimit ?t2"
      unfolding belowLimit_def allFull_def using a tl2 lt by simp
    have res: "forHits e (v # vs) t = forHits e vs ?t2"
      using False by (simp add: forHits_Cons del: forHits.simps)
    have "0 <s maxResult ?t2" using Cons.prems(1) by simp
    from Cons.IH[OF this b2] res show ?thesis by simp
  qed
qed

lemma belowLimit_cong:
  "hitResult t' = hitResult t \<Longrightarrow> flushed t' = flushed t \<Longrightarrow>
   totalLines t' = totalLines t \<Longrightarrow> maxResult t' = maxResult t \<Longrightarrow>
   belowLimit t' = belowLimit t"
  by (simp add: belowLimit_def allFull_def)

lemma atLimit_cong:
  "hitResult t' = hitResult t \<Longrightarrow> flushed t' = flushed t \<Longrightarrow>
   totalLines t' = totalLines t \<Longrightarrow> maxResult t' = maxResult t \<Longrightarrow>
   atLimit t' = atLimit t"
  by (simp add: atLimit_def)

lemma onePass_limit:
  assumes "0 <s maxResult t" and "belowLimit t"
  shows "belowLimit (onePass e r t) \<or> atLimit (onePass e r t)"
proof -
  let ?t1 = "if ScrollID r \<notin> sIDs t then t\<lparr> sIDs := insert (ScrollID r) (sIDs t) \<rparr> else t"
  have "belowLimit ?t1" using assms(2) by (simp add: belowLimit_def allFull_def)
  moreover have "0 <s maxResult ?t1" using assms(1) by simp
  ultimately show ?thesis unfolding onePass_def by (rule forHits_limit[rotated])
qed

lemma belowLimit_not_done:
  "belowLimit t \<Longrightarrow> totalLines t \<noteq> maxResult t"
proof
  assume b: "belowLimit t" and e: "totalLines t = maxResult t"
  let ?K = "length (concat (flushed t)) + length (hitResult t)"
  from b have tl: "totalLines t = of_nat ?K" and lt: "?K < unat (maxResult t)"
    by (simp_all add: belowLimit_def)
  from lt have "?K \<le> unat (maxResult t)" by simp
  from of_nat_eq_limit[OF this] tl e have "?K = unat (maxResult t)" by simp
  with lt show False by simp
qed

lemma limit_inv:
  "(\<forall>resp t t'. parseResult n e resp t = Inr t' \<longrightarrow>
      maxResult t' = maxResult t \<and>
      (0 <s maxResult t \<longrightarrow> numResult t' = maxResult t' \<and>
        (belowLimit t \<longrightarrow>
           (hitResult t' = hitResult t \<and> flushed t' = flushed t \<and> totalLines t' = totalLines t)
           \<or> atLimit t') \<and>
        (atLimit t \<longrightarrow> atLimit t')))
 \<and> (\<forall>r t t'. whileLoop n e r t = Inr t' \<longrightarrow>
      maxResult t' = maxResult t \<and>
      (0 <s maxResult t \<longrightarrow> numResult t = maxResult t \<longrightarrow> numResult t' = maxResult t' \<and>
        (belowLimit t \<longrightarrow> atLimit t') \<and> (atLimit t \<longrightarrow> t' = t)))
 \<and> (\<forall>sid t t'. scroll n e sid t = Inr t' \<longrightarrow>
      maxResult t' = maxResult t \<and>
      (0 <s maxResult t \<longrightarrow> numResult t' = maxResult t' \<and>
        (belowLimit t \<longrightarrow>
           (hitResult t' = hitResult t \<and> flushed t' = flushed t \<and> totalLines t' = totalLines t)
           \<or> atLimit t') \<and>
        (atLimit t \<longrightarrow> atLimit t')))"
proof (rule driver_induct, goal_cases)
  case (1 resp r t)
  then show ?case by (simp add: atLimit_def)
next
  case (2 resp r t t3)
  have mx: "maxResult t3 = maxResult t" using 2(5) by simp
  have "numResult (flushRest e t3) = maxResult (flushRest e t3) \<and>
        (belowLimit t \<longrightarrow> atLimit (flushRest e t3)) \<and>
        (atLimit t \<longrightarrow> atLimit (flushRest e t3))" if m: "0 <s maxResult t"
  proof -
    have n0: "numResult (setTotals r t) = maxResult (setTotals r t)" using m by simp
    from 2(5) m n0 have w: "numResult t3 = maxResult t3"
      "belowLimit (setTotals r t) \<longrightarrow> atLimit t3"
      "atLimit (setTotals r t) \<longrightarrow> t3 = setTotals r t" by simp_all
    have b: "belowLimit (setTotals r t) = belowLimit t"
      by (rule belowLimit_cong) simp_all
    have a: "atLimit (setTotals r t) = atLimit t"
      by (rule atLimit_cong) simp_all
    have f: "atLimit t3 \<Longrightarrow> flushRest e t3 = t3"
      by (simp add: atLimit_def flushRest_def)
    from w b a f mx show ?thesis by auto
  qed
  with mx show ?case by simp
next
  case (3 r t)
  then show ?case using belowLimit_not_done[of t] by auto
next
  case (4 r t t3 t')
  have mx3: "maxResult t3 = maxResult t" using 4(2) by simp
  have mx: "maxResult t' = maxResult t" using 4(3) mx3 by simp
  have "numResult t' = maxResult t' \<and> (belowLimit t \<longrightarrow> atLimit t') \<and> (atLimit t \<longrightarrow> t' = t)"
    if m: "0 <s maxResult t" and nm: "numResult t = maxResult t"
  proof -
    have m1: "0 <s maxResult (onePass e r t)" using m by simp
    from 4(2) m1 have s: "numResult t3 = maxResult t3"
      "belowLimit (onePass e r t) \<longrightarrow>
         (hitResult t3 = hitResult (onePass e r t) \<and> flushed t3 = flushed (onePass e r t)
           \<and> totalLines t3 = totalLines (onePass e r t)) \<or> atLimit t3"
      "atLimit (onePass e r t) \<longrightarrow> atLimit t3" by simp_all
    have m3: "0 <s maxResult t3" using m mx3 by simp
    from 4(3) m3 s(1) have w: "numResult t' = maxResult t'"
      "belowLimit t3 \<longrightarrow> atLimit t'" "atLimit t3 \<longrightarrow> t' = t3" by simp_all
    have na: "\<not> atLimit t" using 4(1) nm by (simp add: atLimit_def)
    have "atLimit t'" if b: "belowLimit t"
    proof -
      from onePass_limit[OF m b, of e r]
      have "belowLimit t3 \<or> atLimit t3"
        using s(2,3) belowLimit_cong[of t3 "onePass e r t"] mx3 by auto
      with w show ?thesis by auto
    qed
    with w(1) na show ?thesis by simp
  qed
  with mx show ?case by simp
next
  case (5 sid t resp t')
  have b: "belowLimit (t\<lparr> scrolled := scrolled t @ [sid] \<rparr>) = belowLimit t"
    by (rule belowLimit_cong) simp_all
  have a: "atLimit (t\<lparr> scrolled := scrolled t @ [sid] \<rparr>) = atLimit t"
    by (rule atLimit_cong) simp_all
  from 5(2) b a show ?case by simp
qed

lemma atLimit_last:
  assumes "atLimit t"
  shows "length (last (flushed t)) = unat (maxResult t) mod 1000"
proof -
  from assms have ne: "flushed t \<noteq> []"
    and full: "\<forall>hs\<in>set (butlast (flushed t)). length hs = 1000"
    and lt: "length (last (flushed t)) < 1000"
    and c: "length (concat (flushed t)) = unat (maxResult t)"
    by (simp_all add: atLimit_def FLUSHBUFFER_def)
  from ne have split: "flushed t = butlast (flushed t) @ [last (flushed t)]" by simp
  have "length (concat (flushed t))
      = length (concat (butlast (flushed t))) + length (last (flushed t))"
    by (subst split) simp
  with concat_full[OF full] c
  have "unat (maxResult t) = 1000 * length (butlast (flushed t)) + length (last (flushed t))"
    by simp
  with lt show ?thesis by simp
qed


lemma run_limit:
  assumes r: "run n e m = Inr t" and m: "0 <s m"
  shows "(firstHits e = [] \<and> flushed t = [] \<and> hitResult t = [])
       \<or> (firstHits e \<noteq> [] \<and> atLimit t \<and> maxResult t = m)"
proof -
  from unfold_run[OF r] obtain resp where s: "Search e = (Some resp, None)"
    and p: "parseResult n e resp (newApp m) = Inr t" by blast
  obtain k where n: "n = Suc k" using p by (cases n) auto
  from p obtain r where ne: "\<not> IsError resp" and b: "Body resp = Some r"
    unfolding n by (auto simp: parseResult_Suc simp del: parseResult.simps
        split: if_splits error_body.splits option.splits)
  have fh: "firstHits e = Hits' (Hits r)" by (simp add: firstHits_def s b)
  have m0: "0 <s maxResult (newApp m :: 'a App)" using m by (simp add: newApp_def)
  have pos: "0 < numResult (setTotals r (newApp m :: 'a App))"
    using m0 positive_limit[OF m] by (simp add: newApp_def word_less_nat_alt)
  show ?thesis
  proof (cases "Hits' (Hits r) = []")
    case True
    with p ne b have "t = setTotals r (newApp m)"
      unfolding n by (simp add: parseResult_Suc del: parseResult.simps)
    with True fh show ?thesis by (simp add: newApp_def)
  next
    case False
    with p ne b pos obtain t3 where
      w: "whileLoop k e r (setTotals r (newApp m)) = Inr t3" and t: "t = flushRest e t3"
      unfolding n by (auto simp: parseResult_Suc simp del: parseResult.simps split: sum.splits)
    have bl: "belowLimit (setTotals r (newApp m :: 'a App))"
      using positive_limit[OF m]
      by (simp add: belowLimit_def allFull_def newApp_def FLUSHBUFFER_def)
    have nm: "numResult (setTotals r (newApp m :: 'a App)) = maxResult (setTotals r (newApp m :: 'a App))"
      using m0 by simp
    from limit_inv[of k e] w m0 nm bl have a: "atLimit t3" and mx: "maxResult t3 = m"
      by (fastforce simp: newApp_def)+
    then have "flushRest e t3 = t3" by (simp add: atLimit_def flushRest_def)
    with a mx t False fh show ?thesis by simp
  qed
qed

lemma limit_multiple_last_flush_empty:
  assumes "run n e m = Inr t" and "0 <s m" and "unat m mod 1000 = 0"
    and "firstHits e \<noteq> []"
  shows "flushed t \<noteq> [] \<and> last (flushed t) = []"
proof -
  from run_limit[OF assms(1,2)] assms(4) have a: "atLimit t" and mx: "maxResult t = m"
    by simp_all
  from atLimit_last[OF a] mx assms(3) have "length (last (flushed t)) = 0" by simp
  with a show ?thesis by (simp add: atLimit_def)
qed





section \<open>The claims\<close>

text \<open>
  C1. With a result limit \<open>N > 0\<close> below the reported total, the driver emits exactly
  \<open>N\<close> records, stops in the page that holds the \<open>N\<close>-th record and sends no request
  after that page.

  The code does not do the last: \<^verbatim>\<open>break\<close> leaves the loop over the hits only, and the
  next statement is \<^verbatim>\<open>t.scroll(r.ScrollID)\<close>. Here the limit is 3 and the cluster
  reports 4 documents, two to a page. The third record is in the page that the first
  scroll request fetches; the run emits three records and then sends a second scroll
  request, with the scroll id of that page. (The count itself is right: see
  \<open>limited_run_count\<close>.)
\<close>

theorem limit_reached_scrolls_once_more:
  "run 8 (cluster (page ''s1'' 4 [''1'', ''2'']) [page ''s2'' 4 [''3'', ''4''] ]
            (page ''s3'' 4 []) Some) 3 =
   Inr \<lparr> maxResult = 3, queryResult = 4, numResult = 3, scrollIDs = [],
         sIDs = {''s1'', ''s2''}, totalLines = 3, hitResult = [],
         written = [(''1\<newline>2\<newline>3\<newline>'', False)],
         flushed = [ [Hit ''1'', Hit ''2'', Hit ''3''] ],
         scrolled = [''s1'', ''s2''], cleared = [] \<rparr>"
  by (simp add: evaluate insert_commute cong: let_weak_cong)

text \<open>
  C2. When a request returns a page without records while the count is short of the
  target, the loop ends and the run completes with the records emitted so far; no page
  is processed twice.

  The code returns from the nested \<^verbatim>\<open>parseResult\<close> to the loop of the page before,
  whose condition \<^verbatim>\<open>totalLines != t.numResult\<close> still holds, and runs that page again.
  Here the limit is 5 and three documents match: the empty page is answered by
  emitting the first two documents a second time and by a second scroll request with
  the same scroll id. Without a limit the same loop may never end
  (\<open>short_source_never_returns\<close>).
\<close>

theorem empty_page_reprocesses_first_page:
  "run 8 (cluster (page ''s1'' 3 [''1'', ''2'', ''3'']) [] (page ''s1'' 3 []) Some) 5 =
   Inr \<lparr> maxResult = 5, queryResult = 3, numResult = 5, scrollIDs = [],
         sIDs = {''s1''}, totalLines = 5, hitResult = [],
         written = [(''1\<newline>2\<newline>3\<newline>1\<newline>2\<newline>'', False)],
         flushed = [ [Hit ''1'', Hit ''2'', Hit ''3'', Hit ''1'', Hit ''2''] ],
         scrolled = [''s1'', ''s1''], cleared = [] \<rparr>"
  by (simp add: evaluate cong: let_weak_cong)

text \<open>
  C3. After the loop the driver sends one clear-scroll request for exactly the scroll
  ids seen during the run, and a failure of that request does not fail the run.

  \<^verbatim>\<open>clearScroll\<close> sends nothing: it only builds a request option, and from
  \<^verbatim>\<open>t.scrollIDs\<close>, which is never assigned, not from \<^verbatim>\<open>t.sIDs\<close>. Here two scroll ids
  have been seen at the end and no clear-scroll request has been sent; no run sends
  one (\<open>run_never_clears\<close>).
\<close>

theorem no_clear_scroll_request:
  "run 8 (cluster (page ''s1'' 2 [''1'']) [page ''s2'' 2 [''2''] ] (page ''s3'' 2 []) Some) 0 =
   Inr \<lparr> maxResult = 0, queryResult = 2, numResult = 2, scrollIDs = [],
         sIDs = {''s1'', ''s2''}, totalLines = 2, hitResult = [],
         written = [(''1\<newline>2\<newline>'', False)], flushed = [ [Hit ''1'', Hit ''2''] ],
         scrolled = [''s1'', ''s2''], cleared = [] \<rparr>"
  by (simp add: evaluate insert_commute cong: let_weak_cong)

text \<open>
  C4. The stored total is set once, from the first page, and later pages do not
  overwrite it.

  The code assigns \<^verbatim>\<open>t.queryResult = r.Hits.Total\<close> for every page it parses. Here the
  first page reports 2 and the second 1, and the run ends with 1 stored.
\<close>

theorem stored_total_overwritten:
  "map_sum id queryResult
     (run 8 (cluster (page ''s1'' 2 [''1'']) [page ''s2'' 1 [''2''] ] (page ''s3'' 1 []) Some) 0)
     = Inr 1
   \<and> reportedTotal (Search (cluster (page ''s1'' 2 [''1'']) [page ''s2'' 1 [''2''] ]
                               (page ''s3'' 1 []) Some)) = 2"
  by (simp add: run_two_totals) (simp add: cluster_def page_def reportedTotal_def)

text \<open>
  C4, as the code has it: the stored total is assigned from every page that is parsed,
  so that when a run completes it is the total reported by the last page fetched.
\<close>

theorem stored_total_is_last_reported:
  assumes "run n e m = Inr t"
  shows "queryResult t = reportedTotal (lastReply e t)"
  using assms by (rule run_total)

theorem stored_total_is_last_reported_witness:
  "map_sum id queryResult
     (run 8 (cluster (page ''s1'' 2 [''1'']) [page ''s2'' 1 [''2''] ] (page ''s3'' 1 []) Some) 0)
     = Inr 1
   \<and> reportedTotal (Scroll (cluster (page ''s1'' 2 [''1'']) [page ''s2'' 1 [''2''] ]
                               (page ''s3'' 1 [] :: string response) Some) 0) = 1"
  using stored_total_is_last_reported[OF run_two_totals] run_two_totals
  by (simp add: lastReply_def)

text \<open>
  C5. Against a source without duplicates, the lines written are the records in the
  order the cluster returned them, as many as were counted, none of them twice.

  The defect of C2 breaks this: a page is run again when the page after it is empty.
  Here the limit is 4 and two documents match; the output holds each of them twice.
\<close>

theorem short_source_written_twice:
  "run 8 (cluster (page ''s1'' 2 [''1'', ''2'']) [] (page ''s1'' 2 []) Some) 4 =
   Inr \<lparr> maxResult = 4, queryResult = 2, numResult = 4, scrollIDs = [],
         sIDs = {''s1''}, totalLines = 4, hitResult = [],
         written = [(''1\<newline>2\<newline>1\<newline>2\<newline>'', False)],
         flushed = [ [Hit ''1'', Hit ''2'', Hit ''1'', Hit ''2''] ],
         scrolled = [''s1'', ''s1''], cleared = [] \<rparr>"
  by (simp add: evaluate cong: let_weak_cong)

text \<open>
  C6. A run without limit that completes has counted as many records as the first page
  reported.

  \<^verbatim>\<open>parseResult\<close> enters its loop only if the page has hits. Here the first page
  reports 5 documents and holds none (a page size of 0): the run completes with
  nothing counted.
\<close>

theorem empty_first_page_counts_nothing:
  "run 8 (cluster (page ''s1'' 5 []) [] (page ''s1'' 5 []) Some) 0 =
   Inr \<lparr> maxResult = 0, queryResult = 5, numResult = 5, scrollIDs = [],
         sIDs = {}, totalLines = 0, hitResult = [],
         written = [], flushed = [], scrolled = [], cleared = [] \<rparr>"
  by (simp add: evaluate cong: let_weak_cong)

text \<open>
  C6, as the code has it: when a run without limit completes and its first page holds
  a record (or reports a total of 0), the count equals the stored total, which is the
  total reported by the last page fetched; it is the first page's total whenever that
  last page reports the same.
\<close>

theorem unlimited_count_is_last_total:
  assumes r: "run n e m = Inr t" and m: "\<not> 0 <s m"
    and s: "Search e = (Some resp, err)" and b: "Body resp = Some r"
    and h: "Hits' (Hits r) \<noteq> [] \<or> Total (Hits r) = 0"
  shows "totalLines t = queryResult t \<and> queryResult t = reportedTotal (lastReply e t)"
proof -
  from unfold_run[OF r] s have p: "parseResult n e resp (newApp m) = Inr t" by auto
  have m': "\<not> 0 <s maxResult (newApp m :: 'a App)" using m by (simp add: newApp_def)
  obtain k where n: "n = Suc k" using p by (cases n) auto
  have q: "queryResult t = reportedTotal (lastReply e t)"
    using run_total[OF r] .
  have c: "totalLines t = queryResult t"
  proof (cases "Total (Hits r) = 0")
    case True
    with p b m' have "t = setTotals r (newApp m)"
      unfolding n by (auto simp: parseResult_Suc simp del: parseResult.simps
          split: if_splits error_body.splits)
    with True show ?thesis by (simp add: newApp_def)
  next
    case False
    with h have "Hits' (Hits r) \<noteq> []" by simp
    with unlimited_inv[of n e] p m' b False show ?thesis by fastforce
  qed
  from c q show ?thesis by simp
qed

theorem unlimited_count_is_last_total_witness:
  "\<not> 0 <s (0 :: int64)
   \<and> map_sum id totalLines
       (run 8 (cluster (page ''s1'' 2 [''1'']) [page ''s2'' 2 [''2''] ] (page ''s3'' 2 []) Some) 0)
       = Inr 2
   \<and> reportedTotal (Scroll (cluster (page ''s1'' 2 [''1'']) [page ''s2'' 2 [''2''] ]
                               (page ''s3'' 2 [] :: string response) Some) 1) = 2"
  using unlimited_count_is_last_total[OF run_two_pages, of "page ''s1'' 2 [''1'']" None
      "\<lparr> ScrollID = ''s1'', Hits = \<lparr> Total = 2, Hits' = [Hit ''1''] \<rparr> \<rparr>"]
    run_two_pages
  by (simp add: lastReply_def cluster_def page_def)




text \<open>
  C8. A write to the output that returns an error is fatal to the run, so that a run
  that completes had only successful writes.

  \<^verbatim>\<open>flushToFile\<close> calls \<^verbatim>\<open>t.opts.output.Write(buf.Bytes())\<close> as a statement and never
  looks at what it returns. Here every write fails and the run completes.
\<close>

theorem failed_write_run_completes:
  "run 8 ((cluster (page ''s1'' 1 [''1'']) [] (page ''s1'' 1 []) Some)
            \<lparr> WriteFails := diskFull \<rparr>) 0 =
   Inr \<lparr> maxResult = 0, queryResult = 1, numResult = 1, scrollIDs = [],
         sIDs = {''s1''}, totalLines = 1, hitResult = [],
         written = [(''1\<newline>'', True)], flushed = [ [Hit ''1''] ],
         scrolled = [''s1''], cleared = [] \<rparr>"
  by (simp add: evaluate cong: let_weak_cong)

text \<open>
  C8, as the code has it: the result of a write is dropped. Whatever the writes return,
  the run ends the same way, with the same state and the same bytes handed to the
  output; only the recorded results of the writes differ.
\<close>

theorem write_errors_ignored:
  "map_sum id unflagged (run n (e\<lparr> WriteFails := w \<rparr>) m) = map_sum id unflagged (run n e m)"
proof -
  have "reliable (e\<lparr> WriteFails := w \<rparr>) = reliable e"
    by (simp add: reliable_def)
  then show ?thesis by (simp add: run_unflagged)
qed

text \<open>
  C9. A record that cannot be serialised is dropped from the output, nothing being
  written for it, while the flush and the run go on and the other records of the buffer
  are written.

  \<^verbatim>\<open>flushToFile\<close> ignores the error of \<^verbatim>\<open>json.Marshal\<close> and writes the newline all the
  same. Here the second of three documents cannot be serialised, and the output has an
  empty line in its place.
\<close>

theorem unserialisable_hit_blank_line:
  "run 8 (cluster (page ''s1'' 3 [''1'', ''x'', ''2'']) [] (page ''s1'' 3 [])
            (marshalUnless ''x'')) 0 =
   Inr \<lparr> maxResult = 0, queryResult = 3, numResult = 3, scrollIDs = [],
         sIDs = {''s1''}, totalLines = 3, hitResult = [],
         written = [(''1\<newline>\<newline>2\<newline>'', False)],
         flushed = [ [Hit ''1'', Hit ''x'', Hit ''2''] ],
         scrolled = [''s1''], cleared = [] \<rparr>"
  by (simp add: evaluate cong: let_weak_cong)

text \<open>
  C9, as the code has it: a flush always returns, with one write; a record that cannot
  be serialised adds its newline and nothing else to the bytes of that write, between
  what the records before it and the records after it add, and the flush changes
  nothing else but its own record in the list of flush calls.
\<close>

theorem unserialisable_hit_leaves_newline:
  assumes "json_Marshal e (Source v) = None"
  shows "flushToFile e (xs @ v # ys) t =
     t\<lparr> written := written t @
           [(flushLoop (json_Marshal e) xs [] @ [CHR 0x0A] @ flushLoop (json_Marshal e) ys [],
             WriteFails e (length (written t)))],
        flushed := flushed t @ [xs @ v # ys] \<rparr>"
  using assms by (simp add: flushToFile_def Let_def flushLoop_eq)

theorem unserialisable_hit_leaves_newline_witness:
  "json_Marshal (cluster (page ''s1'' 0 []) [] (page ''s1'' 0 []) (marshalUnless ''x''))
     (Source (Hit ''x'')) = None
   \<and> written (flushToFile (cluster (page ''s1'' 0 []) [] (page ''s1'' 0 []) (marshalUnless ''x''))
        [Hit ''1'', Hit ''x'', Hit ''2''] (newApp 0))
     = [(''1\<newline>\<newline>2\<newline>'', False)]"
proof -
  have f: "json_Marshal (cluster (page ''s1'' 0 []) [] (page ''s1'' 0 []) (marshalUnless ''x''))
     (Source (Hit ''x'')) = None"
    by (simp add: cluster_def marshalUnless_def)
  show ?thesis
    using unserialisable_hit_leaves_newline[OF f, of "[Hit ''1'']" "[Hit ''2'']" "newApp 0"] f
    by (simp add: cluster_def marshalUnless_def newApp_def)
qed

text \<open>
  C10. When the search or a scroll call returns an error, the program ends through
  \<^verbatim>\<open>log.Fatalf\<close> with a message, and reaches that branch without dereferencing the
  response that is not there.

  Both functions run \<^verbatim>\<open>defer res.Body.Close()\<close> before \<^verbatim>\<open>if err != nil\<close>. The deferred
  call's receiver \<^verbatim>\<open>res.Body\<close> is evaluated by the \<^verbatim>\<open>defer\<close> statement, and the client
  returns a nil response with its error: the program panics there, for the search as
  for a scroll call.
\<close>

theorem nil_response_panics_before_fatal:
  "search n (e\<lparr> Search := (None, Some msg) \<rparr>) t = Inl PanicNilDereference
   \<and> scroll (Suc n) (e\<lparr> Scroll := (\<lambda>k. (None, Some msg)) \<rparr>) sid t = Inl PanicNilDereference"
  by (simp add: search_def)

end
